theory Spec2Isabelle
  imports Complex_Main "HOL-Library.Signed_Division" "HOL-Library.Multiset"
begin

section \<open>Data model\<close>

text \<open>
  Samples are the elements of a \<^verbatim>\<open>Float32Array\<close>. The buffer only copies them, and
  the classifier only compares their root-mean-square with two thresholds, so they are
  idealised as reals: rounding is not modelled. JavaScript's NaN, which the energy of an
  empty block is (0 / 0), is modelled by \<open>None\<close> where it can arise.
\<close>

type_synonym sample = real

subsection \<open>RingBuffer (audio-capture-manager, class RingBuffer)\<close>

text \<open>
  The cursors and the size are non-negative integers. For \<open>rb_size = 0\<close> the remainder
  of the source is NaN; the model covers \<open>0 < rb_size\<close>, which the well-formedness
  predicate \<open>rb_wf\<close> below records. \<open>smod\<close> is the truncating remainder of
  JavaScript's \<^verbatim>\<open>%\<close>.
\<close>

record RingBuffer =
  buffer :: "sample list"
  writePos :: nat
  readPos :: nat
  rb_size :: nat

definition RingBuffer_new :: "nat \<Rightarrow> RingBuffer" where
  "RingBuffer_new sizeInSamples =
     \<lparr>buffer = replicate sizeInSamples 0, writePos = 0, readPos = 0, rb_size = sizeInSamples\<rparr>"

definition getAvailableData :: "RingBuffer \<Rightarrow> nat" where
  "getAvailableData b =
     nat ((int (writePos b) - int (readPos b) + int (rb_size b)) smod int (rb_size b))"

definition getAvailableSpace :: "RingBuffer \<Rightarrow> int" where
  "getAvailableSpace b = int (rb_size b) - int (getAvailableData b) - 1"

text \<open>The body of the \<^verbatim>\<open>for\<close> loop of \<^verbatim>\<open>write\<close>, one sample per step. A typed array
  ignores a store outside its range, as list update does.\<close>

fun write_loop :: "RingBuffer \<Rightarrow> sample list \<Rightarrow> RingBuffer" where
  "write_loop b [] = b"
| "write_loop b (x # xs) =
     write_loop (b\<lparr>buffer := (buffer b)[writePos b := x],
                   writePos := (writePos b + 1) mod rb_size b\<rparr>) xs"

definition RingBuffer_write :: "RingBuffer \<Rightarrow> sample list \<Rightarrow> RingBuffer \<times> bool" where
  "RingBuffer_write b data =
     (let availableSpace = getAvailableSpace b
      in if int (length data) > availableSpace then (b, False)
         else (write_loop b data, True))"

text \<open>The \<^verbatim>\<open>for\<close> loop of \<^verbatim>\<open>read\<close>: \<open>toRead\<close> samples, from the read cursor on.\<close>

fun read_loop :: "RingBuffer \<Rightarrow> nat \<Rightarrow> RingBuffer \<times> sample list" where
  "read_loop b 0 = (b, [])"
| "read_loop b (Suc n) =
     (let x = buffer b ! readPos b;
          r = read_loop (b\<lparr>readPos := (readPos b + 1) mod rb_size b\<rparr>) n
      in (fst r, x # snd r))"

text \<open>The count is a number of samples: the only caller passes \<^verbatim>\<open>Math.floor\<close> of a
  product of the sample rate and the channel count.\<close>

definition RingBuffer_read :: "RingBuffer \<Rightarrow> nat \<Rightarrow> RingBuffer \<times> sample list" where
  "RingBuffer_read b samples =
     (let available = getAvailableData b;
          toRead = min samples available
      in read_loop b toRead)"

definition RingBuffer_clear :: "RingBuffer \<Rightarrow> RingBuffer" where
  "RingBuffer_clear b = b\<lparr>writePos := 0, readPos := 0\<rparr>"

text \<open>What the constructor establishes for a positive size and every method keeps.\<close>

definition rb_wf :: "RingBuffer \<Rightarrow> bool" where
  "rb_wf b \<longleftrightarrow>
     0 < rb_size b \<and> length (buffer b) = rb_size b \<and>
     writePos b < rb_size b \<and> readPos b < rb_size b"

text \<open>The samples written and not yet read, oldest first: what a read of everything
  available returns.\<close>

definition rb_contents :: "RingBuffer \<Rightarrow> sample list" where
  "rb_contents b = snd (RingBuffer_read b (getAvailableData b))"

text \<open>A sequence of calls on one buffer, and what each call returned.\<close>

datatype rb_op = Write "sample list" | Read nat

datatype rb_result = Wrote bool | Got "sample list"

fun rb_step :: "RingBuffer \<Rightarrow> rb_op \<Rightarrow> RingBuffer \<times> rb_result" where
  "rb_step b (Write xs) = (let r = RingBuffer_write b xs in (fst r, Wrote (snd r)))"
| "rb_step b (Read n) = (let r = RingBuffer_read b n in (fst r, Got (snd r)))"

fun rb_run :: "RingBuffer \<Rightarrow> rb_op list \<Rightarrow> RingBuffer \<times> rb_result list" where
  "rb_run b [] = (b, [])"
| "rb_run b (c # cs) =
     (let r = rb_step b c; rest = rb_run (fst r) cs
      in (fst rest, snd r # snd rest))"

text \<open>Bookkeeping over a trace: samples accepted by writes, samples handed out by reads.\<close>

fun accepted :: "rb_op \<times> rb_result \<Rightarrow> nat" where
  "accepted (Write xs, Wrote True) = length xs"
| "accepted _ = 0"

fun handed_out :: "rb_op \<times> rb_result \<Rightarrow> nat" where
  "handed_out (_, Got ys) = length ys"
| "handed_out _ = 0"

definition written_count :: "(rb_op \<times> rb_result) list \<Rightarrow> nat" where
  "written_count tr = sum_list (map accepted tr)"

definition read_count :: "(rb_op \<times> rb_result) list \<Rightarrow> nat" where
  "read_count tr = sum_list (map handed_out tr)"

subsection \<open>VoiceActivityDetector (audio-capture-manager, class VoiceActivityDetector)\<close>

text \<open>Timestamps are \<^verbatim>\<open>Date.now()\<close> milliseconds and the durations are milliseconds:
  integers. The timestamp 0 doubles as the marker "unset" in the source.\<close>

record VoiceActivityDetector =
  energyThreshold :: real
  silenceThreshold :: real
  minSpeechDuration :: int
  minSilenceDuration :: int
  speechStartTime :: int
  silenceStartTime :: int
  isSpeaking :: bool

definition VoiceActivityDetector_new :: VoiceActivityDetector where
  "VoiceActivityDetector_new =
     \<lparr>energyThreshold = 0.01, silenceThreshold = 0.005,
      minSpeechDuration = 300, minSilenceDuration = 500,
      speechStartTime = 0, silenceStartTime = 0, isSpeaking = False\<rparr>"

text \<open>\<^verbatim>\<open>Math.sqrt(sum / audioData.length)\<close>; for an empty block this is NaN.\<close>

definition calculateEnergy :: "sample list \<Rightarrow> real option" where
  "calculateEnergy audioData =
     (if audioData = [] then None
      else Some (sqrt (fold (\<lambda>x sum. sum + x * x) audioData 0 / real (length audioData))))"

text \<open>Comparisons with a possibly-NaN left operand: both are false on NaN.\<close>

definition num_gt :: "real option \<Rightarrow> real \<Rightarrow> bool" where
  "num_gt e t = (case e of None \<Rightarrow> False | Some x \<Rightarrow> x > t)"

definition num_lt :: "real option \<Rightarrow> real \<Rightarrow> bool" where
  "num_lt e t = (case e of None \<Rightarrow> False | Some x \<Rightarrow> x < t)"

definition processAudio ::
  "VoiceActivityDetector \<Rightarrow> sample list \<Rightarrow> int \<Rightarrow> VoiceActivityDetector \<times> bool" where
  "processAudio v audioData timestamp =
     (let energy = calculateEnergy audioData;
          now = timestamp;
          v1 =
            (if num_gt energy (energyThreshold v) then
               (let va = (if \<not> isSpeaking v then v\<lparr>speechStartTime := now\<rparr> else v)
                in va\<lparr>isSpeaking := True, silenceStartTime := 0\<rparr>)
             else if num_lt energy (silenceThreshold v) then
               (let va = (if isSpeaking v \<and> silenceStartTime v = 0
                          then v\<lparr>silenceStartTime := now\<rparr> else v)
                in if isSpeaking va \<and> silenceStartTime va > 0 \<and>
                      (now - silenceStartTime va) > minSilenceDuration va
                   then va\<lparr>isSpeaking := False, speechStartTime := 0, silenceStartTime := 0\<rparr>
                   else va)
             else v)
      in (v1, isSpeaking v1 \<and> (now - speechStartTime v1) > minSpeechDuration v1))"

text \<open>Successive calls, each with its block and timestamp, and the value each returned.\<close>

fun processAudio_run ::
  "VoiceActivityDetector \<Rightarrow> (sample list \<times> int) list \<Rightarrow> VoiceActivityDetector \<times> bool list" where
  "processAudio_run v [] = (v, [])"
| "processAudio_run v (c # cs) =
     (let r = processAudio v (fst c) (snd c); rest = processAudio_run (fst r) cs
      in (fst rest, snd r # snd rest))"

subsection \<open>AudioDeviceManager.detectDeviceChanges (audio-device-manager.ts)\<close>

record AudioDevice =
  dev_id :: string
  dev_name :: string
  isDefault :: bool
  isEnabled :: bool
  dev_channels :: nat
  dev_sampleRate :: nat

datatype change_type = added | removed | defaultChanged | stateChanged

record DeviceChangeEvent =
  ev_type :: change_type
  ev_device :: AudioDevice
  ev_timestamp :: int

text \<open>The optional \<^verbatim>\<open>properties\<close> of a detailed device play no part in the diff and
  are left out.\<close>

text \<open>A \<^verbatim>\<open>Map<string, device>\<close> iterates in insertion order and has each key once: an
  association list with distinct keys.\<close>

type_synonym device_map = "(string \<times> AudioDevice) list"

definition map_has :: "device_map \<Rightarrow> string \<Rightarrow> bool" where
  "map_has m k = (map_of m k \<noteq> None)"

text \<open>The four loops of the source in their order; every \<^verbatim>\<open>emit\<close> appends its event
  (\<open>ev_type\<close> also determines the name of the emitted signal).\<close>

definition detectDeviceChanges :: "device_map \<Rightarrow> device_map \<Rightarrow> int \<Rightarrow> DeviceChangeEvent list" where
  "detectDeviceChanges oldDevices newDevices now =
     (let addedEvents =
            map (\<lambda>kd. \<lparr>ev_type = added, ev_device = snd kd, ev_timestamp = now\<rparr>)
              (filter (\<lambda>kd. \<not> map_has oldDevices (fst kd)) newDevices);
          removedEvents =
            map (\<lambda>kd. \<lparr>ev_type = removed, ev_device = snd kd, ev_timestamp = now\<rparr>)
              (filter (\<lambda>kd. \<not> map_has newDevices (fst kd)) oldDevices);
          oldDefault = find isDefault (map snd oldDevices);
          newDefault = find isDefault (map snd newDevices);
          defaultEvents =
            (if map_option dev_id oldDefault \<noteq> map_option dev_id newDefault then
               (case newDefault of
                  Some d \<Rightarrow> [\<lparr>ev_type = defaultChanged, ev_device = d, ev_timestamp = now\<rparr>]
                | None \<Rightarrow> [])
             else []);
          stateEvents =
            concat (map (\<lambda>kd.
              (case map_of oldDevices (fst kd) of
                 Some oldDevice \<Rightarrow>
                   (if isEnabled oldDevice \<noteq> isEnabled (snd kd)
                    then [\<lparr>ev_type = stateChanged, ev_device = snd kd, ev_timestamp = now\<rparr>]
                    else [])
               | None \<Rightarrow> [])) newDevices)
      in addedEvents @ removedEvents @ defaultEvents @ stateEvents)"

subsection \<open>SpeechServiceManager.addAudioChunk (the segment window)\<close>

record AudioChunk =
  chunk_data :: "sample list"
  chunk_timestamp :: int
  duration :: int
  chunk_sampleRate :: nat
  chunk_channels :: nat

definition maxBufferDuration :: int where
  "maxBufferDuration = 30000"

definition totalDuration :: "AudioChunk list \<Rightarrow> int" where
  "totalDuration cs = fold (\<lambda>c sum. sum + duration c) cs 0"

text \<open>The \<^verbatim>\<open>while (removeDuration > 0 && this.audioBuffer.length > 0)\<close> loop: each
  round shifts the oldest chunk out. Durations are milliseconds, integers; the cap is the
  constant of the source. The \<^verbatim>\<open>audioChunkAdded\<close> signal that \<^verbatim>\<open>addAudioChunk\<close> emits
  does not touch the window and is left out.\<close>

fun evict :: "int \<Rightarrow> AudioChunk list \<Rightarrow> AudioChunk list" where
  "evict removeDuration [] = []"
| "evict removeDuration (c # cs) =
     (if removeDuration > 0 then evict (removeDuration - duration c) cs else c # cs)"

definition addAudioChunk :: "AudioChunk list \<Rightarrow> AudioChunk \<Rightarrow> AudioChunk list" where
  "addAudioChunk audioBuffer chunk =
     (let pushed = audioBuffer @ [chunk];
          total = totalDuration pushed
      in if total > maxBufferDuration then evict (total - maxBufferDuration) pushed
         else pushed)"

text \<open>How many chunks a push removes from the front.\<close>

definition evicted_count :: "AudioChunk list \<Rightarrow> AudioChunk \<Rightarrow> nat" where
  "evicted_count audioBuffer chunk =
     length (audioBuffer @ [chunk]) - length (addAudioChunk audioBuffer chunk)"

text \<open>Every method of the manager that assigns \<^verbatim>\<open>this.audioBuffer\<close>, by its effect
  on the window. \<open>transcribe\<close> empties the window when the request succeeds and is not
  continuous, and leaves it alone when it throws or the request is continuous.\<close>

datatype window_op =
  AddAudioChunk AudioChunk
  | Transcribe bool bool
  | StartContinuousTranscription
  | StopContinuousTranscription
  | Cleanup

fun window_step :: "AudioChunk list \<Rightarrow> window_op \<Rightarrow> AudioChunk list" where
  "window_step audioBuffer (AddAudioChunk chunk) = addAudioChunk audioBuffer chunk"
| "window_step audioBuffer (Transcribe succeeds continuousMode) =
     (if succeeds \<and> \<not> continuousMode then [] else audioBuffer)"
| "window_step audioBuffer StartContinuousTranscription = []"
| "window_step audioBuffer StopContinuousTranscription = audioBuffer"
| "window_step audioBuffer Cleanup = []"

subsection \<open>AudioCaptureManager (audio-capture-manager)\<close>

record AudioCaptureConfig =
  deviceId :: string
  sampleRate :: nat
  channels :: nat
  bufferSizeMs :: nat

datatype capture_event =
  CaptureStarted AudioCaptureConfig
  | CaptureStopped
  | BufferOverflow
  | AudioChunkEvent AudioChunk

datatype capture_error = CaptureError string

text \<open>\<open>nativeModule\<close> is whether the driver handle is loaded (non-null);
  \<open>processingInterval\<close> is whether the periodic drain task is scheduled.\<close>

record AudioCaptureManager =
  nativeModule :: bool
  ringBuffer :: "RingBuffer option"
  vad :: VoiceActivityDetector
  isCapturing :: bool
  currentConfig :: "AudioCaptureConfig option"
  audioChunks :: "AudioChunk list"
  processingInterval :: bool

definition AudioCaptureManager_new :: AudioCaptureManager where
  "AudioCaptureManager_new =
     \<lparr>nativeModule = False, ringBuffer = None, vad = VoiceActivityDetector_new,
      isCapturing = False, currentConfig = None, audioChunks = [],
      processingInterval = False\<rparr>"

text \<open>\<open>driverStarts\<close> is what the driver's \<^verbatim>\<open>startCapture(config)\<close> returns. The result
  is the thrown error, if any, the manager as the call leaves it, and the events emitted.\<close>

definition startCapture ::
  "AudioCaptureManager \<Rightarrow> AudioCaptureConfig \<Rightarrow> bool \<Rightarrow>
     capture_error option \<times> AudioCaptureManager \<times> capture_event list" where
  "startCapture m config driverStarts =
     (if isCapturing m then
        (Some (CaptureError ''Audio capture already in progress''), m, [])
      else if \<not> nativeModule m then
        (Some (CaptureError ''Native module not initialized''), m, [])
      else
        (let bufferSizeInSamples = sampleRate config * channels config * 10;
             m1 = m\<lparr>ringBuffer := Some (RingBuffer_new bufferSizeInSamples)\<rparr>
         in if \<not> driverStarts then
              (Some (CaptureError ''Failed to start native audio capture''), m1, [])
            else
              (None,
               m1\<lparr>currentConfig := Some config, isCapturing := True, audioChunks := [],
                   processingInterval := True\<rparr>,
               [CaptureStarted config])))"

definition stopCapture :: "AudioCaptureManager \<Rightarrow> AudioCaptureManager \<times> capture_event list" where
  "stopCapture m =
     (if \<not> isCapturing m then (m, [])
      else (m\<lparr>isCapturing := False, currentConfig := None, processingInterval := False,
               ringBuffer := None\<rparr>,
            [CaptureStopped]))"

text \<open>The delivery callback. \<open>floatData\<close> is the \<^verbatim>\<open>Float32Array\<close> view of the delivered
  bytes, \<open>None\<close> when building the view throws (the \<^verbatim>\<open>catch\<close> only logs).\<close>

definition onAudioData ::
  "AudioCaptureManager \<Rightarrow> sample list option \<Rightarrow> AudioCaptureManager \<times> capture_event list" where
  "onAudioData m floatData =
     (if \<not> isCapturing m \<or> ringBuffer m = None \<or> currentConfig m = None then (m, [])
      else
        (case floatData of
           None \<Rightarrow> (m, [])
         | Some samples \<Rightarrow>
             (let r = RingBuffer_write (the (ringBuffer m)) samples;
                  m1 = m\<lparr>ringBuffer := Some (fst r)\<rparr>
              in if \<not> snd r then (m1, [BufferOverflow]) else (m1, []))))"

subsection \<open>Concrete inputs used in the examples below\<close>

definition example_ops :: "rb_op list" where
  "example_ops = [Write [1, 2, 3], Read 2, Write [4, 5], Read 5]"

definition one_sample_buffer :: RingBuffer where
  "one_sample_buffer = fst (RingBuffer_write (RingBuffer_new 4) [7])"

definition loud_block :: "sample list" where
  "loud_block = [1]"

definition silent_block :: "sample list" where
  "silent_block = [0]"

definition speaking_detector :: VoiceActivityDetector where
  "speaking_detector = VoiceActivityDetector_new\<lparr>speechStartTime := 1000, isSpeaking := True\<rparr>"

definition devA :: AudioDevice where
  "devA = \<lparr>dev_id = ''A'', dev_name = ''Microphone A'', isDefault = True, isEnabled = True,
            dev_channels = 1, dev_sampleRate = 44100\<rparr>"

definition devB :: AudioDevice where
  "devB = \<lparr>dev_id = ''B'', dev_name = ''Microphone B'', isDefault = False, isEnabled = True,
            dev_channels = 1, dev_sampleRate = 48000\<rparr>"

definition devC :: AudioDevice where
  "devC = \<lparr>dev_id = ''C'', dev_name = ''Microphone C'', isDefault = True, isEnabled = True,
            dev_channels = 2, dev_sampleRate = 44100\<rparr>"

definition chunk_of :: "int \<Rightarrow> AudioChunk" where
  "chunk_of d = \<lparr>chunk_data = [], chunk_timestamp = 0, duration = d,
                  chunk_sampleRate = 44100, chunk_channels = 1\<rparr>"

definition example_config :: AudioCaptureConfig where
  "example_config =
     \<lparr>deviceId = ''default'', sampleRate = 44100, channels = 1, bufferSizeMs = 100\<rparr>"

definition idle_manager :: AudioCaptureManager where
  "idle_manager = AudioCaptureManager_new\<lparr>nativeModule := True\<rparr>"

definition capturing_manager :: AudioCaptureManager where
  "capturing_manager =
     \<lparr>nativeModule = True, ringBuffer = Some (RingBuffer_new 4), vad = VoiceActivityDetector_new,
      isCapturing = True, currentConfig = Some example_config, audioChunks = [],
      processingInterval = True\<rparr>"

section \<open>The ring buffer\<close>

subsection \<open>Cursor arithmetic\<close>

lemma smod_nonneg: "0 \<le> a \<Longrightarrow> 0 < b \<Longrightarrow> (a::int) smod b = a mod b"
  by (simp add: smod_int_alt_def sgn_if)

lemma avail_if:
  assumes "rb_wf b"
  shows "getAvailableData b =
    (if readPos b \<le> writePos b then writePos b - readPos b
     else writePos b + rb_size b - readPos b)"
proof -
  let ?w = "int (writePos b)" and ?r = "int (readPos b)" and ?s = "int (rb_size b)"
  from assms have b: "?w < ?s" "?r < ?s" "0 < ?s" by (simp_all add: rb_wf_def)
  then have "(?w - ?r + ?s) smod ?s = (?w - ?r + ?s) mod ?s"
    by (intro smod_nonneg) simp_all
  also have "\<dots> = (if ?r \<le> ?w then ?w - ?r else ?w + ?s - ?r)"
  proof (cases "?r \<le> ?w")
    case True
    then have "(?w - ?r + ?s) mod ?s = (?w - ?r) mod ?s" by simp
    also have "\<dots> = ?w - ?r" using True b by (intro mod_pos_pos_trivial) simp_all
    finally show ?thesis using True by simp
  next
    case False
    then have "(?w - ?r + ?s) mod ?s = ?w - ?r + ?s"
      using b by (intro mod_pos_pos_trivial) simp_all
    then show ?thesis using False by simp
  qed
  finally show ?thesis
    unfolding getAvailableData_def by (simp split: if_splits) 
qed

lemma idx_if: "x < 2 * s \<Longrightarrow> (x::nat) mod s = (if x < s then x else x - s)"
  by (simp add: mod_if le_mod_geq)

lemma read_loop_fst:
  "readPos b < rb_size b \<Longrightarrow>
   fst (read_loop b n) = b\<lparr>readPos := (readPos b + n) mod rb_size b\<rparr>"
proof (induction n arbitrary: b)
  case 0
  then show ?case by simp
next
  case (Suc n)
  let ?b1 = "b\<lparr>readPos := (readPos b + 1) mod rb_size b\<rparr>"
  from Suc.prems have "readPos ?b1 < rb_size ?b1" by simp
  from Suc.IH [OF this] show ?case
    by (simp add: Let_def mod_add_left_eq mod_Suc_eq)
qed

lemma read_loop_snd:
  "readPos b < rb_size b \<Longrightarrow>
   snd (read_loop b n) = map (\<lambda>i. buffer b ! ((readPos b + i) mod rb_size b)) [0..<n]"
proof (induction n arbitrary: b)
  case 0
  then show ?case by simp
next
  case (Suc n)
  let ?b1 = "b\<lparr>readPos := (readPos b + 1) mod rb_size b\<rparr>"
  from Suc.prems have "readPos ?b1 < rb_size ?b1" by simp
  from Suc.IH [OF this] Suc.prems show ?case
    by (simp add: Let_def map_upt_Suc mod_add_left_eq mod_Suc_eq del: upt_Suc)
qed

lemma avail_lt: "rb_wf b \<Longrightarrow> getAvailableData b < rb_size b"
  by (simp add: avail_if) (auto simp: rb_wf_def)

lemma rb_contents_eq:
  assumes "rb_wf b"
  shows "rb_contents b =
    map (\<lambda>i. buffer b ! ((readPos b + i) mod rb_size b)) [0..<getAvailableData b]"
  using assms by (simp add: rb_contents_def RingBuffer_read_def read_loop_snd rb_wf_def)

lemma length_rb_contents: "rb_wf b \<Longrightarrow> length (rb_contents b) = getAvailableData b"
  by (simp add: rb_contents_eq)

lemma write_step:
  fixes x :: sample
  assumes wf: "rb_wf b" and room: "getAvailableData b + 2 \<le> rb_size b"
  defines "b1 \<equiv> b\<lparr>buffer := (buffer b)[writePos b := x],
                    writePos := (writePos b + 1) mod rb_size b\<rparr>"
  shows "rb_wf b1" and "getAvailableData b1 = getAvailableData b + 1"
    and "rb_contents b1 = rb_contents b @ [x]"
proof -
  from wf have s: "0 < rb_size b" "length (buffer b) = rb_size b"
    "writePos b < rb_size b" "readPos b < rb_size b" by (simp_all add: rb_wf_def)
  show wf1: "rb_wf b1" using s by (simp add: rb_wf_def b1_def)
  have w1: "writePos b1 = (if writePos b + 1 = rb_size b then 0 else writePos b + 1)"
    using s by (simp add: b1_def mod_Suc)
  show a1: "getAvailableData b1 = getAvailableData b + 1"
    using room s unfolding avail_if [OF wf1] avail_if [OF wf] w1
    by (auto simp: b1_def split: if_splits)
  have last: "(readPos b + getAvailableData b) mod rb_size b = writePos b"
    using s unfolding avail_if [OF wf] by (auto simp: idx_if)
  have other: "(readPos b + i) mod rb_size b \<noteq> writePos b" if "i < getAvailableData b" for i
    using that s unfolding avail_if [OF wf] by (auto simp: idx_if split: if_splits)
  have "rb_contents b1 =
      map (\<lambda>i. (buffer b)[writePos b := x] ! ((readPos b + i) mod rb_size b))
        [0..<getAvailableData b + 1]"
    unfolding rb_contents_eq [OF wf1] a1 by (simp add: b1_def)
  also have "\<dots> = map (\<lambda>i. buffer b ! ((readPos b + i) mod rb_size b)) [0..<getAvailableData b] @ [x]"
  proof -
    have "(buffer b)[writePos b := x] ! ((readPos b + i) mod rb_size b) =
          buffer b ! ((readPos b + i) mod rb_size b)" if "i \<in> set [0..<getAvailableData b]" for i
      using other [of i] that by (simp add: nth_list_update)
    then have "map (\<lambda>i. (buffer b)[writePos b := x] ! ((readPos b + i) mod rb_size b))
                 [0..<getAvailableData b] =
               map (\<lambda>i. buffer b ! ((readPos b + i) mod rb_size b)) [0..<getAvailableData b]"
      by (intro map_cong) simp_all
    moreover have "(buffer b)[writePos b := x] ! ((readPos b + getAvailableData b) mod rb_size b) = x"
      using last s by simp
    ultimately show ?thesis by simp
  qed
  finally show "rb_contents b1 = rb_contents b @ [x]"
    by (simp add: rb_contents_eq [OF wf])
qed

lemma read_step:
  assumes wf: "rb_wf b" and some: "0 < getAvailableData b"
  defines "b1 \<equiv> b\<lparr>readPos := (readPos b + 1) mod rb_size b\<rparr>"
  shows "rb_wf b1" and "getAvailableData b1 = getAvailableData b - 1"
    and "buffer b ! readPos b = hd (rb_contents b)"
    and "rb_contents b1 = tl (rb_contents b)"
proof -
  from wf have s: "0 < rb_size b" "length (buffer b) = rb_size b"
    "writePos b < rb_size b" "readPos b < rb_size b" by (simp_all add: rb_wf_def)
  show wf1: "rb_wf b1" using s by (simp add: rb_wf_def b1_def)
  have r1: "readPos b1 = (if readPos b + 1 = rb_size b then 0 else readPos b + 1)"
    using s by (simp add: b1_def mod_Suc)
  show a1: "getAvailableData b1 = getAvailableData b - 1"
    using some s unfolding avail_if [OF wf1] avail_if [OF wf] r1
    by (auto simp: b1_def split: if_splits)
  from some obtain a where a: "getAvailableData b = Suc a" by (cases "getAvailableData b") auto
  show "buffer b ! readPos b = hd (rb_contents b)"
    using s unfolding rb_contents_eq [OF wf] a by (simp add: upt_conv_Cons del: upt_Suc)
  have "rb_contents b1 = map (\<lambda>i. buffer b ! ((readPos b + Suc i) mod rb_size b)) [0..<a]"
    unfolding rb_contents_eq [OF wf1] a1 a by (simp add: b1_def mod_add_left_eq)
  also have "\<dots> = tl (rb_contents b)"
    unfolding rb_contents_eq [OF wf] a by (simp add: map_upt_Suc del: upt_Suc)
  finally show "rb_contents b1 = tl (rb_contents b)" .
qed

subsection \<open>The loops, in terms of the contents\<close>

lemma space_eq: "rb_wf b \<Longrightarrow> getAvailableSpace b = int (rb_size b - getAvailableData b - 1)"
  using avail_lt [of b] by (simp add: getAvailableSpace_def)

lemma write_loop_frame:
  "writePos b < rb_size b \<Longrightarrow>
   rb_size (write_loop b xs) = rb_size b \<and> readPos (write_loop b xs) = readPos b \<and>
   length (buffer (write_loop b xs)) = length (buffer b) \<and>
   writePos (write_loop b xs) = (writePos b + length xs) mod rb_size b"
proof (induction xs arbitrary: b)
  case Nil
  then show ?case by simp
next
  case (Cons x xs)
  let ?b1 = "b\<lparr>buffer := (buffer b)[writePos b := x],
               writePos := (writePos b + 1) mod rb_size b\<rparr>"
  from Cons.prems have "writePos ?b1 < rb_size ?b1" by simp
  from Cons.IH [OF this] show ?case by (simp add: mod_add_left_eq mod_Suc_eq)
qed

lemma write_loop_contents:
  "rb_wf b \<Longrightarrow> getAvailableData b + length xs < rb_size b \<Longrightarrow>
   rb_wf (write_loop b xs) \<and>
   getAvailableData (write_loop b xs) = getAvailableData b + length xs \<and>
   rb_contents (write_loop b xs) = rb_contents b @ xs"
proof (induction xs arbitrary: b)
  case Nil
  then show ?case by simp
next
  case (Cons x xs)
  let ?b1 = "b\<lparr>buffer := (buffer b)[writePos b := x],
               writePos := (writePos b + 1) mod rb_size b\<rparr>"
  from Cons.prems have room: "getAvailableData b + 2 \<le> rb_size b" by simp
  note st = write_step [OF Cons.prems(1) room, of x]
  have "getAvailableData ?b1 + length xs < rb_size ?b1"
    using Cons.prems(2) st(2) by simp
  from Cons.IH [OF st(1) this] st show ?case by simp
qed

lemma read_loop_contents:
  "rb_wf b \<Longrightarrow> n \<le> getAvailableData b \<Longrightarrow>
   rb_wf (fst (read_loop b n)) \<and>
   getAvailableData (fst (read_loop b n)) = getAvailableData b - n \<and>
   snd (read_loop b n) = take n (rb_contents b) \<and>
   rb_contents (fst (read_loop b n)) = drop n (rb_contents b)"
proof (induction n arbitrary: b)
  case 0
  then show ?case by simp
next
  case (Suc n)
  let ?b1 = "b\<lparr>readPos := (readPos b + 1) mod rb_size b\<rparr>"
  from Suc.prems have some: "0 < getAvailableData b" by simp
  note st = read_step [OF Suc.prems(1) some]
  have ne: "rb_contents b \<noteq> []"
    using some length_rb_contents [OF Suc.prems(1)] by auto
  have "n \<le> getAvailableData ?b1" using Suc.prems(2) st(2) by simp
  from Suc.IH [OF st(1) this] st ne show ?case
    by (cases "rb_contents b") (simp_all add: Let_def drop_Suc)
qed

lemma read_loop_frame:
  "rb_size (fst (read_loop b n)) = rb_size b \<and> writePos (fst (read_loop b n)) = writePos b \<and>
   buffer (fst (read_loop b n)) = buffer b"
  by (induction n arbitrary: b) (simp_all add: Let_def)

lemma rb_wf_new: "0 < n \<Longrightarrow> rb_wf (RingBuffer_new n)"
  by (simp add: rb_wf_def RingBuffer_new_def)

lemma avail_new: "0 < n \<Longrightarrow> getAvailableData (RingBuffer_new n) = 0"
  by (simp add: avail_if rb_wf_new) (simp add: RingBuffer_new_def)

lemma write_fits:
  assumes "rb_wf b" and "int (length xs) \<le> getAvailableSpace b"
  shows "snd (RingBuffer_write b xs) = True"
    and "rb_wf (fst (RingBuffer_write b xs))"
    and "getAvailableData (fst (RingBuffer_write b xs)) = getAvailableData b + length xs"
    and "rb_contents (fst (RingBuffer_write b xs)) = rb_contents b @ xs"
    and "rb_size (fst (RingBuffer_write b xs)) = rb_size b"
    and "readPos (fst (RingBuffer_write b xs)) = readPos b"
    and "writePos (fst (RingBuffer_write b xs)) = (writePos b + length xs) mod rb_size b"
proof -
  from assms have fit: "getAvailableData b + length xs < rb_size b"
    using avail_lt [OF assms(1)] by (simp add: getAvailableSpace_def)
  from assms have eq: "RingBuffer_write b xs = (write_loop b xs, True)"
    by (simp add: RingBuffer_write_def)
  from assms(1) have w: "writePos b < rb_size b" by (simp add: rb_wf_def)
  show "snd (RingBuffer_write b xs) = True" by (simp add: eq)
  show "rb_wf (fst (RingBuffer_write b xs))"
    and "getAvailableData (fst (RingBuffer_write b xs)) = getAvailableData b + length xs"
    and "rb_contents (fst (RingBuffer_write b xs)) = rb_contents b @ xs"
    using write_loop_contents [OF assms(1) fit] by (simp_all add: eq)
  show "rb_size (fst (RingBuffer_write b xs)) = rb_size b"
    and "readPos (fst (RingBuffer_write b xs)) = readPos b"
    and "writePos (fst (RingBuffer_write b xs)) = (writePos b + length xs) mod rb_size b"
    using write_loop_frame [OF w, of xs] by (simp_all add: eq)
qed

lemma write_overflow:
  "int (length xs) > getAvailableSpace b \<Longrightarrow> RingBuffer_write b xs = (b, False)"
  by (simp add: RingBuffer_write_def)

lemma read_facts:
  assumes "rb_wf b"
  shows "rb_wf (fst (RingBuffer_read b n))"
    and "snd (RingBuffer_read b n) = take n (rb_contents b)"
    and "rb_contents (fst (RingBuffer_read b n)) = drop n (rb_contents b)"
    and "getAvailableData (fst (RingBuffer_read b n)) = getAvailableData b - n"
    and "rb_size (fst (RingBuffer_read b n)) = rb_size b"
    and "length (snd (RingBuffer_read b n)) = min n (getAvailableData b)"
proof -
  let ?k = "min n (getAvailableData b)"
  have eq: "RingBuffer_read b n = read_loop b ?k" by (simp add: RingBuffer_read_def)
  have k: "?k \<le> getAvailableData b" by simp
  note rl = read_loop_contents [OF assms k]
  have len: "length (rb_contents b) = getAvailableData b" by (rule length_rb_contents [OF assms])
  show "rb_wf (fst (RingBuffer_read b n))" using rl by (simp add: eq)
  show "snd (RingBuffer_read b n) = take n (rb_contents b)"
    using rl len unfolding eq by (simp add: min_def)
  show "rb_contents (fst (RingBuffer_read b n)) = drop n (rb_contents b)"
    using rl len unfolding eq by (simp add: min_def)
  show "getAvailableData (fst (RingBuffer_read b n)) = getAvailableData b - n"
    using rl unfolding eq by (simp add: min_def)
  show "rb_size (fst (RingBuffer_read b n)) = rb_size b"
    unfolding eq by (simp add: read_loop_frame)
  show "length (snd (RingBuffer_read b n)) = min n (getAvailableData b)"
    using rl len unfolding eq by (simp add: min_def)
qed

lemma rb_contents_new: "0 < n \<Longrightarrow> rb_contents (RingBuffer_new n) = []"
  using length_rb_contents [OF rb_wf_new, of n] by (simp add: avail_new)

lemma rb_step_inv:
  assumes "rb_wf b"
  shows "rb_wf (fst (rb_step b c))"
    and "rb_size (fst (rb_step b c)) = rb_size b"
    and "getAvailableData (fst (rb_step b c)) + handed_out (c, snd (rb_step b c)) =
         getAvailableData b + accepted (c, snd (rb_step b c))"
proof -
  show "rb_wf (fst (rb_step b c))"
  proof (cases c)
    case (Write xs)
    then show ?thesis
      using write_fits(2) [OF assms, of xs] write_overflow [of b xs] assms
      by (cases "int (length xs) \<le> getAvailableSpace b") (simp_all add: Let_def)
  next
    case (Read n)
    then show ?thesis using read_facts(1) [OF assms, of n] by (simp add: Let_def)
  qed
  show "rb_size (fst (rb_step b c)) = rb_size b"
  proof (cases c)
    case (Write xs)
    then show ?thesis
      using write_fits(5) [OF assms, of xs] write_overflow [of b xs]
      by (cases "int (length xs) \<le> getAvailableSpace b") (simp_all add: Let_def)
  next
    case (Read n)
    then show ?thesis using read_facts(5) [OF assms, of n] by (simp add: Let_def)
  qed
  show "getAvailableData (fst (rb_step b c)) + handed_out (c, snd (rb_step b c)) =
         getAvailableData b + accepted (c, snd (rb_step b c))"
  proof (cases c)
    case (Write xs)
    then show ?thesis
      using write_fits(1,3) [OF assms, of xs] write_overflow [of b xs]
      by (cases "int (length xs) \<le> getAvailableSpace b")
        (simp_all add: Let_def written_count_def read_count_def)
  next
    case (Read n)
    then show ?thesis
      using read_facts(4,6) [OF assms, of n]
      by (simp add: Let_def written_count_def read_count_def)
  qed
qed

lemma rb_run_inv:
  "rb_wf b \<Longrightarrow>
   rb_wf (fst (rb_run b cs)) \<and> rb_size (fst (rb_run b cs)) = rb_size b \<and>
   length (snd (rb_run b cs)) = length cs \<and>
   getAvailableData (fst (rb_run b cs)) + read_count (zip cs (snd (rb_run b cs))) =
     getAvailableData b + written_count (zip cs (snd (rb_run b cs)))"
proof (induction cs arbitrary: b)
  case Nil
  then show ?case by (simp add: written_count_def read_count_def)
next
  case (Cons c cs)
  note st = rb_step_inv [OF Cons.prems, of c]
  from Cons.IH [OF st(1)] st(2,3) show ?case
    by (simp add: Let_def written_count_def read_count_def)
qed

lemma rb_wf_clear: "rb_wf b \<Longrightarrow> rb_wf (RingBuffer_clear b)"
  by (simp add: rb_wf_def RingBuffer_clear_def)

lemma rb_wf_reachable: "0 < n \<Longrightarrow> rb_wf (fst (rb_run (RingBuffer_new n) cs))"
  using rb_run_inv [OF rb_wf_new] by blast

lemma space_new: "0 < n \<Longrightarrow> getAvailableSpace (RingBuffer_new n) = int n - 1"
  by (simp add: getAvailableSpace_def avail_new) (simp add: RingBuffer_new_def)

lemma fields_new:
  "rb_size (RingBuffer_new n) = n" "writePos (RingBuffer_new n) = 0"
  "readPos (RingBuffer_new n) = 0"
  by (simp_all add: RingBuffer_new_def)

subsection \<open>Claims about the ring buffer\<close>

text \<open>
  C1. Take a buffer built with a positive capacity \<open>N\<close> and run any sequence of writes and
  reads on it. In the state reached, \<open>getAvailableData\<close> and \<open>getAvailableSpace\<close> sum to
  \<open>N - 1\<close>; a read of \<open>count\<close> samples returns exactly \<open>min count available\<close> samples; and
  the available amount is the number of samples accepted by the writes so far minus the number
  handed out by the reads so far, so no read returns more than was written and not yet read.
  Every read of a sequence happens in such a state.
\<close>

theorem ring_buffer_accounting:
  assumes "0 < N"
  shows "int (getAvailableData (fst (rb_run (RingBuffer_new N) cs))) +
           getAvailableSpace (fst (rb_run (RingBuffer_new N) cs)) = int N - 1 \<and>
         (\<forall>count. length (snd (RingBuffer_read (fst (rb_run (RingBuffer_new N) cs)) count)) =
            min count (getAvailableData (fst (rb_run (RingBuffer_new N) cs)))) \<and>
         getAvailableData (fst (rb_run (RingBuffer_new N) cs)) =
           written_count (zip cs (snd (rb_run (RingBuffer_new N) cs))) -
           read_count (zip cs (snd (rb_run (RingBuffer_new N) cs))) \<and>
         read_count (zip cs (snd (rb_run (RingBuffer_new N) cs))) \<le>
           written_count (zip cs (snd (rb_run (RingBuffer_new N) cs)))"
proof -
  let ?b = "fst (rb_run (RingBuffer_new N) cs)"
  let ?tr = "zip cs (snd (rb_run (RingBuffer_new N) cs))"
  from assms have wf0: "rb_wf (RingBuffer_new N)" by (rule rb_wf_new)
  note inv = rb_run_inv [OF wf0, of cs]
  have size: "rb_size ?b = N" using inv by (simp add: RingBuffer_new_def)
  have count: "getAvailableData ?b + read_count ?tr = written_count ?tr"
    using inv by (simp add: avail_new [OF assms])
  have "int (getAvailableData ?b) + getAvailableSpace ?b = int N - 1"
    by (simp add: getAvailableSpace_def size)
  moreover have "\<forall>count. length (snd (RingBuffer_read ?b count)) = min count (getAvailableData ?b)"
    using read_facts(6) inv by blast
  moreover have "getAvailableData ?b = written_count ?tr - read_count ?tr"
    using count by arith
  moreover have "read_count ?tr \<le> written_count ?tr"
    using count by arith
  ultimately show ?thesis by blast
qed

theorem ring_buffer_accounting_witness:
  "0 < (4::nat) \<and>
   snd (rb_run (RingBuffer_new 4) example_ops) =
     [Wrote True, Got [1, 2], Wrote True, Got [3, 4, 5]] \<and>
   getAvailableData (fst (rb_run (RingBuffer_new 4) example_ops)) = 0 \<and>
   getAvailableSpace (fst (rb_run (RingBuffer_new 4) example_ops)) = 3 \<and>
   length (snd (RingBuffer_read (fst (rb_run (RingBuffer_new 4) example_ops)) 2)) = 0"
proof -
  let ?r = "rb_run (RingBuffer_new 4) example_ops"
  have res: "snd ?r = [Wrote True, Got [1, 2], Wrote True, Got [3, 4, 5]]"
    by code_simp
  have tr: "zip example_ops [Wrote True, Got [1, 2], Wrote True, Got [3, 4, 5]] =
      [(Write [1, 2, 3], Wrote True), (Read 2, Got [1, 2]),
       (Write [4, 5], Wrote True), (Read 5, Got [3, 4, 5])]"
    by (simp add: example_ops_def)
  have w: "written_count (zip example_ops (snd ?r)) = 5"
    unfolding res tr by (simp add: written_count_def)
  have r: "read_count (zip example_ops (snd ?r)) = 5"
    unfolding res tr by (simp add: read_count_def)
  have pos: "0 < (4::nat)" by simp
  note t = ring_buffer_accounting [OF pos, of example_ops]
  from t have a: "getAvailableData (fst ?r) = 0" unfolding w r by simp
  from t have "int (getAvailableData (fst ?r)) + getAvailableSpace (fst ?r) = int 4 - 1"
    by blast
  with a have sp: "getAvailableSpace (fst ?r) = 3" by simp
  from t have "length (snd (RingBuffer_read (fst ?r) 2)) = min 2 (getAvailableData (fst ?r))"
    by blast
  with a have "length (snd (RingBuffer_read (fst ?r) 2)) = 0" by simp
  with res a sp show ?thesis by simp
qed

text \<open>
  C2. In every well-formed buffer state (every state the constructor and the methods
  produce), a write of more samples than \<open>getAvailableSpace\<close> reports returns false and
  hands back the very same buffer: storage and both cursors unchanged. A write of at most
  that many samples returns true, appends all samples to the contents in order, advances the
  write cursor by the block length (modulo the size) and leaves the read cursor alone.
\<close>

theorem write_all_or_nothing:
  assumes "rb_wf b"
  shows "(int (length xs) > getAvailableSpace b \<longrightarrow> RingBuffer_write b xs = (b, False)) \<and>
         (int (length xs) \<le> getAvailableSpace b \<longrightarrow>
            snd (RingBuffer_write b xs) = True \<and>
            rb_contents (fst (RingBuffer_write b xs)) = rb_contents b @ xs \<and>
            getAvailableData (fst (RingBuffer_write b xs)) = getAvailableData b + length xs \<and>
            writePos (fst (RingBuffer_write b xs)) = (writePos b + length xs) mod rb_size b \<and>
            readPos (fst (RingBuffer_write b xs)) = readPos b \<and>
            rb_size (fst (RingBuffer_write b xs)) = rb_size b)"
  using write_overflow [of b xs] write_fits [OF assms, of xs] by blast

theorem write_all_or_nothing_witness:
  "rb_wf (RingBuffer_new 4) \<and>
   int (length [1, 2, 3, 4 :: sample]) > getAvailableSpace (RingBuffer_new 4) \<and>
   RingBuffer_write (RingBuffer_new 4) [1, 2, 3, 4] = (RingBuffer_new 4, False) \<and>
   int (length [1, 2, 3 :: sample]) \<le> getAvailableSpace (RingBuffer_new 4) \<and>
   snd (RingBuffer_write (RingBuffer_new 4) [1, 2, 3]) = True \<and>
   rb_contents (fst (RingBuffer_write (RingBuffer_new 4) [1, 2, 3])) = [1, 2, 3] \<and>
   writePos (fst (RingBuffer_write (RingBuffer_new 4) [1, 2, 3])) = 3"
proof -
  have wf: "rb_wf (RingBuffer_new 4)" by (simp add: rb_wf_new)
  have sp: "getAvailableSpace (RingBuffer_new 4) = 3" by (simp add: space_new)
  from write_all_or_nothing [OF wf, of "[1, 2, 3, 4]"]
  have over: "RingBuffer_write (RingBuffer_new 4) [1, 2, 3, 4] = (RingBuffer_new 4, False)"
    by (simp add: sp)
  from write_all_or_nothing [OF wf, of "[1, 2, 3]"]
  have fit: "snd (RingBuffer_write (RingBuffer_new 4) [1, 2, 3]) = True"
    "rb_contents (fst (RingBuffer_write (RingBuffer_new 4) [1, 2, 3])) = [1, 2, 3]"
    "writePos (fst (RingBuffer_write (RingBuffer_new 4) [1, 2, 3])) = 3"
    by (simp_all add: sp rb_contents_new fields_new)
  from wf over fit show ?thesis by (simp add: sp)
qed

text \<open>
  C9, as stated, fails: the buffer is first-in first-out, so when samples are already
  waiting the read after the write returns the oldest samples, not the block just written.
  Here the buffer holds the sample 7; writing the block [9] and reading one sample
  returns [7].
\<close>

theorem write_read_roundtrip_counterexample:
  "rb_wf one_sample_buffer \<and>
   int (length [9 :: sample]) \<le> getAvailableSpace one_sample_buffer \<and>
   snd (RingBuffer_read (fst (RingBuffer_write one_sample_buffer [9])) (length [9 :: sample])) = [7] \<and>
   snd (RingBuffer_read (fst (RingBuffer_write one_sample_buffer [9])) (length [9 :: sample])) \<noteq> [9]"
  by code_simp

text \<open>
  C9, amended. In every well-formed buffer state, writing a block \<open>xs\<close> that fits and then
  reading \<open>length xs\<close> samples returns the first \<open>length xs\<close> samples of the previous
  contents followed by \<open>xs\<close>, and restores \<open>getAvailableData\<close> to its value before the
  write. When the buffer was empty before the write, the samples returned are exactly \<open>xs\<close>,
  in the order written.
\<close>

theorem write_then_read_fifo:
  assumes "rb_wf b" and "int (length xs) \<le> getAvailableSpace b"
  shows "snd (RingBuffer_read (fst (RingBuffer_write b xs)) (length xs)) =
           take (length xs) (rb_contents b @ xs) \<and>
         getAvailableData (fst (RingBuffer_read (fst (RingBuffer_write b xs)) (length xs))) =
           getAvailableData b \<and>
         (getAvailableData b = 0 \<longrightarrow>
            snd (RingBuffer_read (fst (RingBuffer_write b xs)) (length xs)) = xs)"
proof -
  note w = write_fits [OF assms]
  note r = read_facts [OF w(2), of "length xs"]
  have "rb_contents b = []" if "getAvailableData b = 0"
    using that length_rb_contents [OF assms(1)] by simp
  then show ?thesis using r(2,4) w(3,4) by auto
qed

theorem write_then_read_fifo_witness:
  "rb_wf one_sample_buffer \<and>
   int (length [8, 9 :: sample]) \<le> getAvailableSpace one_sample_buffer \<and>
   snd (RingBuffer_read (fst (RingBuffer_write one_sample_buffer [8, 9])) 2) = [7, 8] \<and>
   getAvailableData (fst (RingBuffer_read (fst (RingBuffer_write one_sample_buffer [8, 9])) 2)) =
     getAvailableData one_sample_buffer \<and>
   getAvailableData (RingBuffer_new 4) = 0 \<and>
   snd (RingBuffer_read (fst (RingBuffer_write (RingBuffer_new 4) [8, 9])) 2) = [8, 9]"
proof -
  have wf1: "rb_wf one_sample_buffer" by code_simp
  have fit1: "int (length [8, 9 :: sample]) \<le> getAvailableSpace one_sample_buffer" by code_simp
  have c1: "rb_contents one_sample_buffer = [7]" by code_simp
  have wf0: "rb_wf (RingBuffer_new 4)" by (simp add: rb_wf_new)
  have fit0: "int (length [8, 9 :: sample]) \<le> getAvailableSpace (RingBuffer_new 4)"
    by (simp add: space_new)
  have a0: "getAvailableData (RingBuffer_new 4) = 0" by (simp add: avail_new)
  from write_then_read_fifo [OF wf1 fit1] c1
  have "snd (RingBuffer_read (fst (RingBuffer_write one_sample_buffer [8, 9])) 2) = [7, 8]"
    "getAvailableData (fst (RingBuffer_read (fst (RingBuffer_write one_sample_buffer [8, 9])) 2)) =
       getAvailableData one_sample_buffer"
    by (simp_all add: numeral_2_eq_2)
  moreover from write_then_read_fifo [OF wf0 fit0] a0
  have "snd (RingBuffer_read (fst (RingBuffer_write (RingBuffer_new 4) [8, 9])) 2) = [8, 9]"
    by (simp add: numeral_2_eq_2 rb_contents_new)
  ultimately show ?thesis using wf1 fit1 a0 by simp
qed

section \<open>The voice activity detector\<close>

lemma processAudio_loud:
  assumes "num_gt (calculateEnergy d) (energyThreshold v)"
  shows "processAudio v d t =
    (v\<lparr>speechStartTime := (if isSpeaking v then speechStartTime v else t),
       isSpeaking := True, silenceStartTime := 0\<rparr>,
     t - (if isSpeaking v then speechStartTime v else t) > minSpeechDuration v)"
  using assms by (simp add: processAudio_def Let_def)

lemma run_speaking:
  "isSpeaking v \<Longrightarrow>
   \<forall>c \<in> set cs. num_gt (calculateEnergy (fst c)) (energyThreshold v) \<Longrightarrow>
   snd (processAudio_run v cs) = map (\<lambda>c. snd c - speechStartTime v > minSpeechDuration v) cs"
proof (induction cs arbitrary: v)
  case Nil
  then show ?case by simp
next
  case (Cons c cs)
  let ?v1 = "v\<lparr>isSpeaking := True, silenceStartTime := 0\<rparr>"
  from Cons.prems have loud: "num_gt (calculateEnergy (fst c)) (energyThreshold v)" by simp
  have step: "processAudio v (fst c) (snd c) =
      (?v1, snd c - speechStartTime v > minSpeechDuration v)"
    using processAudio_loud [OF loud, of "snd c"] Cons.prems(1) by simp
  have "snd (processAudio_run ?v1 cs) =
      map (\<lambda>c. snd c - speechStartTime ?v1 > minSpeechDuration ?v1) cs"
    using Cons.prems by (intro Cons.IH) simp_all
  then show ?case by (simp add: step Let_def)
qed

lemma processAudio_idle:
  assumes "\<not> isSpeaking v" and "\<not> num_gt (calculateEnergy d) (energyThreshold v)"
  shows "processAudio v d t = (v, False)"
  using assms by (simp add: processAudio_def Let_def)

lemma run_idle:
  "\<not> isSpeaking v \<Longrightarrow>
   \<forall>c \<in> set cs. \<not> num_gt (calculateEnergy (fst c)) (energyThreshold v) \<Longrightarrow>
   processAudio_run v cs = (v, replicate (length cs) False)"
proof (induction cs)
  case Nil
  then show ?case by simp
next
  case (Cons c cs)
  then have "processAudio v (fst c) (snd c) = (v, False)"
    by (intro processAudio_idle) simp_all
  with Cons show ?case by (simp add: Let_def)
qed

lemma num_lt_not_gt: "num_lt e s \<Longrightarrow> s \<le> t \<Longrightarrow> \<not> num_gt e t"
  by (auto simp: num_lt_def num_gt_def split: option.splits)

lemma silence_start_recorded:
  assumes "isSpeaking v" and "silenceThreshold v \<le> energyThreshold v"
    and "num_lt (calculateEnergy d) (silenceThreshold v)"
    and "silenceStartTime v = 0" and "0 \<le> minSilenceDuration v"
  shows "fst (processAudio v d now) = v\<lparr>silenceStartTime := now\<rparr>"
  using assms num_lt_not_gt [OF assms(3,2)] by (simp add: processAudio_def Let_def)

lemma processAudio_run_append:
  "processAudio_run v (xs @ ys) =
     (fst (processAudio_run (fst (processAudio_run v xs)) ys),
      snd (processAudio_run v xs) @ snd (processAudio_run (fst (processAudio_run v xs)) ys))"
  by (induction xs arbitrary: v) (simp_all add: Let_def)

lemma processAudio_silent:
  assumes "isSpeaking v" and "silenceThreshold v \<le> energyThreshold v"
    and "num_lt (calculateEnergy d) (silenceThreshold v)"
  shows "processAudio v d now =
    (if 0 < (if silenceStartTime v = 0 then now else silenceStartTime v) \<and>
        now - (if silenceStartTime v = 0 then now else silenceStartTime v) > minSilenceDuration v
     then (v\<lparr>isSpeaking := False, speechStartTime := 0, silenceStartTime := 0\<rparr>, False)
     else (v\<lparr>silenceStartTime := (if silenceStartTime v = 0 then now else silenceStartTime v)\<rparr>,
           now - speechStartTime v > minSpeechDuration v))"
  using assms(1,3) num_lt_not_gt [OF assms(3,2)] by (auto simp: processAudio_def Let_def)

lemma silent_wait:
  "isSpeaking v \<Longrightarrow> silenceThreshold v \<le> energyThreshold v \<Longrightarrow>
   silenceStartTime v \<noteq> 0 \<Longrightarrow>
   \<forall>c \<in> set pre. num_lt (calculateEnergy (fst c)) (silenceThreshold v) \<Longrightarrow>
   \<forall>c \<in> set pre. snd c - silenceStartTime v \<le> minSilenceDuration v \<Longrightarrow>
   processAudio_run v pre =
     (v, map (\<lambda>c. snd c - speechStartTime v > minSpeechDuration v) pre)"
proof (induction pre)
  case Nil
  then show ?case by simp
next
  case (Cons c pre)
  have "processAudio v (fst c) (snd c) =
      (v, snd c - speechStartTime v > minSpeechDuration v)"
    using processAudio_silent [of v "fst c" "snd c"] Cons.prems by simp
  with Cons show ?case by (simp add: Let_def)
qed

lemma energy_loud: "calculateEnergy loud_block = Some 1"
  by (simp add: calculateEnergy_def loud_block_def)

lemma energy_silent: "calculateEnergy silent_block = Some 0"
  by (simp add: calculateEnergy_def silent_block_def)

lemma energy_empty: "calculateEnergy [] = None"
  by (simp add: calculateEnergy_def)

lemmas vad_eval = processAudio_def Let_def energy_loud energy_silent energy_empty
  num_gt_def num_lt_def VoiceActivityDetector_new_def

subsection \<open>Claims about the voice activity detector\<close>

text \<open>
  C3, as stated, fails at the boundary: the return value compares the elapsed time with the
  minimum speech duration by a strict \<open>>\<close>. With the default 300 ms and one call every
  100 ms from 1000 on, all blocks above the speech threshold, the call at 1200 (the minimum
  minus one cycle) returns false as claimed, but so does the call one cycle later, at 1300.
\<close>

theorem speech_boundary_counterexample:
  "num_gt (calculateEnergy loud_block) (energyThreshold VoiceActivityDetector_new) \<and>
   minSpeechDuration VoiceActivityDetector_new = 300 \<and>
   snd (processAudio_run VoiceActivityDetector_new
     [(loud_block, 1000), (loud_block, 1100), (loud_block, 1200), (loud_block, 1300)]) =
     [False, False, False, False]"
  by (simp add: vad_eval)

text \<open>
  C3, amended. Start from the not-speaking state and make a run of calls whose blocks all have
  energy above the speech threshold, the first at time \<open>t0\<close>. Then the call at time \<open>t\<close>
  returns true exactly when \<open>t - t0\<close> is strictly greater than the minimum speech duration:
  the calls up to and including \<open>t0\<close> plus the minimum return false, every later call
  returns true.
\<close>

theorem speech_debounce_strict:
  assumes "\<not> isSpeaking v"
    and "\<forall>c \<in> set (c0 # cs). num_gt (calculateEnergy (fst c)) (energyThreshold v)"
  shows "snd (processAudio_run v (c0 # cs)) =
           map (\<lambda>c. snd c - snd c0 > minSpeechDuration v) (c0 # cs)"
proof -
  let ?v1 = "v\<lparr>speechStartTime := snd c0, isSpeaking := True, silenceStartTime := 0\<rparr>"
  from assms(2) have loud: "num_gt (calculateEnergy (fst c0)) (energyThreshold v)" by simp
  have step: "processAudio v (fst c0) (snd c0) = (?v1, snd c0 - snd c0 > minSpeechDuration v)"
    using processAudio_loud [OF loud, of "snd c0"] assms(1) by simp
  have "snd (processAudio_run ?v1 cs) =
      map (\<lambda>c. snd c - speechStartTime ?v1 > minSpeechDuration ?v1) cs"
    using assms(2) by (intro run_speaking) simp_all
  then show ?thesis by (simp add: step Let_def)
qed

theorem speech_debounce_strict_witness:
  "\<not> isSpeaking VoiceActivityDetector_new \<and>
   num_gt (calculateEnergy loud_block) (energyThreshold VoiceActivityDetector_new) \<and>
   minSpeechDuration VoiceActivityDetector_new = 300 \<and>
   snd (processAudio_run VoiceActivityDetector_new
     [(loud_block, 1000), (loud_block, 1100), (loud_block, 1200), (loud_block, 1300),
      (loud_block, 1400)]) =
     [False, False, False, False, True]"
proof -
  have h1: "\<not> isSpeaking VoiceActivityDetector_new"
    by (simp add: VoiceActivityDetector_new_def)
  have loud: "num_gt (calculateEnergy loud_block) (energyThreshold VoiceActivityDetector_new)"
    by (simp add: energy_loud num_gt_def VoiceActivityDetector_new_def)
  then have h2: "\<forall>c \<in> set [(loud_block, 1000), (loud_block, 1100), (loud_block, 1200),
        (loud_block, 1300), (loud_block, 1400::int)].
      num_gt (calculateEnergy (fst c)) (energyThreshold VoiceActivityDetector_new)"
    by simp
  from speech_debounce_strict [OF h1 h2] h1 loud show ?thesis
    by (simp add: VoiceActivityDetector_new_def)
qed

text \<open>
  C7. Let the classifier be speaking, with the silence threshold not above the speech threshold,
  and let every following block have energy below the silence threshold. The recorded
  silence-start \<open>s\<close> is the marker the state already holds or, when the marker is unset (0, the
  state right after speech), the timestamp of the first of these blocks; timestamps are positive.
  As long as the elapsed time \<open>t - s\<close> does not exceed the minimum silence duration (the calls
  \<open>pre\<close>), the classifier stays speaking, keeps \<open>s\<close> as its silence-start and answers by the
  speech debounce. The first call whose elapsed time exceeds the minimum silence duration
  (\<open>c1\<close>) switches to not-speaking, resets both start markers to 0 and returns false; and
  every later call (\<open>post\<close>) returns false, the classifier staying not-speaking, as long as no
  block has energy above the speech threshold.
\<close>

theorem silence_after_speech_run:
  assumes "isSpeaking v" and "silenceThreshold v \<le> energyThreshold v"
    and "s = (if silenceStartTime v = 0 then snd (hd (pre @ [c1])) else silenceStartTime v)"
    and "0 < s"
    and "\<forall>c \<in> set (pre @ [c1]). num_lt (calculateEnergy (fst c)) (silenceThreshold v)"
    and "\<forall>c \<in> set pre. snd c - s \<le> minSilenceDuration v"
    and "snd c1 - s > minSilenceDuration v"
    and "\<forall>c \<in> set post. \<not> num_gt (calculateEnergy (fst c)) (energyThreshold v)"
  shows "processAudio_run v pre =
           ((if pre = [] then v else v\<lparr>silenceStartTime := s\<rparr>),
            map (\<lambda>c. snd c - speechStartTime v > minSpeechDuration v) pre) \<and>
         fst (processAudio_run v (pre @ [c1])) =
           v\<lparr>isSpeaking := False, speechStartTime := 0, silenceStartTime := 0\<rparr> \<and>
         snd (processAudio_run v (pre @ [c1] @ post)) =
           map (\<lambda>c. snd c - speechStartTime v > minSpeechDuration v) pre @
           replicate (Suc (length post)) False \<and>
         \<not> isSpeaking (fst (processAudio_run v (pre @ [c1] @ post)))"
proof -
  let ?off = "v\<lparr>isSpeaking := False, speechStartTime := 0, silenceStartTime := 0\<rparr>"
  let ?res = "map (\<lambda>c. snd c - speechStartTime v > minSpeechDuration v) pre"
  let ?mid = "if pre = [] then v else v\<lparr>silenceStartTime := s\<rparr>"
  have wait: "processAudio_run v pre = (?mid, ?res)"
  proof (cases pre)
    case Nil
    then show ?thesis by simp
  next
    case (Cons c0 rest)
    let ?v1 = "v\<lparr>silenceStartTime := s\<rparr>"
    from Cons assms(3) have s: "s = (if silenceStartTime v = 0 then snd c0 else silenceStartTime v)"
      by simp
    from Cons assms(5,6) have c0: "num_lt (calculateEnergy (fst c0)) (silenceThreshold v)"
      "snd c0 - s \<le> minSilenceDuration v" by simp_all
    have step: "processAudio v (fst c0) (snd c0) =
        (?v1, snd c0 - speechStartTime v > minSpeechDuration v)"
      using processAudio_silent [OF assms(1,2) c0(1), of "snd c0"] c0(2) s by simp
    have "processAudio_run ?v1 rest =
        (?v1, map (\<lambda>c. snd c - speechStartTime ?v1 > minSpeechDuration ?v1) rest)"
      using assms(1,2,4,5,6) Cons by (intro silent_wait) simp_all
    with step Cons show ?thesis by (simp add: Let_def)
  qed
  have c1: "num_lt (calculateEnergy (fst c1)) (silenceThreshold v)" using assms(5) by simp
  have trans: "processAudio ?mid (fst c1) (snd c1) = (?off, False)"
  proof (cases pre)
    case Nil
    with assms(3) have s: "s = (if silenceStartTime v = 0 then snd c1 else silenceStartTime v)"
      by simp
    from Nil show ?thesis
      using processAudio_silent [OF assms(1,2) c1, of "snd c1"] assms(4,7) s by simp
  next
    case (Cons c0 rest)
    let ?v1 = "v\<lparr>silenceStartTime := s\<rparr>"
    have "processAudio ?v1 (fst c1) (snd c1) = (?off, False)"
      using processAudio_silent [of ?v1 "fst c1" "snd c1"] assms(1,2,4,7) c1 by simp
    with Cons show ?thesis by simp
  qed
  have idle: "processAudio_run ?off post = (?off, replicate (length post) False)"
    using assms(8) by (intro run_idle) simp_all
  have one: "processAudio_run ?mid [c1] = (?off, [False])"
    by (simp add: trans Let_def)
  have upto: "processAudio_run v (pre @ [c1]) = (?off, ?res @ [False])"
    by (simp add: processAudio_run_append wait one del: processAudio_run.simps)
  have all: "processAudio_run v (pre @ [c1] @ post) =
      (?off, ?res @ replicate (Suc (length post)) False)"
    using processAudio_run_append [of v "pre @ [c1]" post]
    by (simp add: upto idle replicate_app_Cons_same del: processAudio_run.simps)
  from wait upto all show ?thesis by simp
qed

theorem silence_after_speech_run_witness:
  "fst (processAudio_run VoiceActivityDetector_new [(loud_block, 1000)]) = speaking_detector \<and>
   isSpeaking speaking_detector \<and> silenceStartTime speaking_detector = 0 \<and>
   minSilenceDuration speaking_detector = 500 \<and>
   num_lt (calculateEnergy silent_block) (silenceThreshold speaking_detector) \<and>
   processAudio_run speaking_detector [(silent_block, 1400), (silent_block, 1800)] =
     (speaking_detector\<lparr>silenceStartTime := 1400\<rparr>, [True, True]) \<and>
   fst (processAudio_run speaking_detector
     ([(silent_block, 1400), (silent_block, 1800)] @ [(silent_block, 2000)])) =
     VoiceActivityDetector_new \<and>
   snd (processAudio_run speaking_detector
     ([(silent_block, 1400), (silent_block, 1800)] @ [(silent_block, 2000)] @
      [(silent_block, 2100), ([], 2200)])) = [True, True, False, False, False] \<and>
   snd (processAudio_run VoiceActivityDetector_new
     [(loud_block, 1000), (silent_block, 1400), (silent_block, 2000), (silent_block, 9000)]) =
     [False, True, False, False]"
proof -
  let ?v = speaking_detector
  let ?pre = "[(silent_block, 1400), (silent_block, 1800 :: int)]"
  let ?c1 = "(silent_block, 2000 :: int)"
  let ?post = "[(silent_block, 2100), ([], 2200 :: int)]"
  have v: "?v = \<lparr>energyThreshold = 0.01, silenceThreshold = 0.005,
      minSpeechDuration = 300, minSilenceDuration = 500,
      speechStartTime = 1000, silenceStartTime = 0, isSpeaking = True\<rparr>"
    by (simp add: speaking_detector_def VoiceActivityDetector_new_def)
  have quiet: "num_lt (calculateEnergy silent_block) (silenceThreshold ?v)"
    by (simp add: v energy_silent num_lt_def)
  have h1: "isSpeaking ?v" by (simp add: v)
  have h2: "silenceThreshold ?v \<le> energyThreshold ?v" by (simp add: v)
  have h3: "(1400 :: int) = (if silenceStartTime ?v = 0 then snd (hd (?pre @ [?c1]))
      else silenceStartTime ?v)"
    by (simp add: v)
  have h4: "0 < (1400 :: int)" by simp
  have h5: "\<forall>c \<in> set (?pre @ [?c1]). num_lt (calculateEnergy (fst c)) (silenceThreshold ?v)"
    using quiet by simp
  have h6: "\<forall>c \<in> set ?pre. snd c - 1400 \<le> minSilenceDuration ?v" by (simp add: v)
  have h7: "snd ?c1 - 1400 > minSilenceDuration ?v" by (simp add: v)
  have h8: "\<forall>c \<in> set ?post. \<not> num_gt (calculateEnergy (fst c)) (energyThreshold ?v)"
    by (simp add: v energy_silent energy_empty num_gt_def)
  note t = silence_after_speech_run [OF h1 h2 h3 h4 h5 h6 h7 h8]
  from t have r1: "processAudio_run ?v ?pre = (?v\<lparr>silenceStartTime := 1400\<rparr>, [True, True])"
    by (simp add: v del: processAudio_run.simps)
  from t have r2: "fst (processAudio_run ?v (?pre @ [?c1])) = VoiceActivityDetector_new"
    by (simp add: v VoiceActivityDetector_new_def del: processAudio_run.simps)
  from t have r3: "snd (processAudio_run ?v (?pre @ [?c1] @ ?post)) =
      [True, True, False, False, False]"
    by (simp add: v del: processAudio_run.simps)
  have r0: "fst (processAudio_run VoiceActivityDetector_new [(loud_block, 1000)]) = ?v"
    by (simp add: v vad_eval)
  have r4: "snd (processAudio_run VoiceActivityDetector_new
     [(loud_block, 1000), (silent_block, 1400), (silent_block, 2000), (silent_block, 9000)]) =
     [False, True, False, False]"
    by (simp add: vad_eval)
  have "silenceStartTime ?v = 0" "minSilenceDuration ?v = 500" by (simp_all add: v)
  with r0 h1 quiet r1 r2 r3 r4 show ?thesis by (simp only: simp_thms)
qed

section \<open>The device change detector\<close>

lemma state_events_type:
  "e \<in> set (concat (map (\<lambda>kd.
              (case map_of oldDevices (fst kd) of
                 Some oldDevice \<Rightarrow>
                   (if isEnabled oldDevice \<noteq> isEnabled (snd kd)
                    then [\<lparr>ev_type = stateChanged, ev_device = snd kd, ev_timestamp = now\<rparr>]
                    else [])
               | None \<Rightarrow> [])) newDevices)) \<Longrightarrow> ev_type e = stateChanged"
  by (auto split: option.splits if_splits)

lemma default_part:
  assumes d: "e \<in> set (if C then
               (case find isDefault (map snd newDevices) of
                  Some d \<Rightarrow> [\<lparr>ev_type = defaultChanged, ev_device = d, ev_timestamp = now\<rparr>]
                | None \<Rightarrow> [])
             else [])"
  shows "\<exists>d. find isDefault (map snd newDevices) = Some d \<and> ev_device e = d"
proof (cases "find isDefault (map snd newDevices)")
  case None
  have "(if C then
               (case find isDefault (map snd newDevices) of
                  Some d \<Rightarrow> [\<lparr>ev_type = defaultChanged, ev_device = d, ev_timestamp = now\<rparr>]
                | None \<Rightarrow> [])
             else []) = []"
    by (simp add: None)
  with d have "e \<in> set []" by (simp only:)
  then show ?thesis by simp
next
  case (Some x)
  have "(if C then
               (case find isDefault (map snd newDevices) of
                  Some d \<Rightarrow> [\<lparr>ev_type = defaultChanged, ev_device = d, ev_timestamp = now\<rparr>]
                | None \<Rightarrow> [])
             else []) = (if C then [\<lparr>ev_type = defaultChanged, ev_device = x, ev_timestamp = now\<rparr>] else [])"
    by (simp add: Some)
  with d have "e \<in> set (if C then [\<lparr>ev_type = defaultChanged, ev_device = x, ev_timestamp = now\<rparr>] else [])"
    by (simp only:)
  then have "e = \<lparr>ev_type = defaultChanged, ev_device = x, ev_timestamp = now\<rparr>"
    by (cases C) simp_all
  with Some show ?thesis by simp
qed
lemma default_event_only:
  assumes "e \<in> set (detectDeviceChanges oldDevices newDevices now)"
    and "ev_type e = defaultChanged"
  shows "\<exists>d. find isDefault (map snd newDevices) = Some d \<and> ev_device e = d"
proof -
  from assms(1) consider
      (a) "e \<in> set (map (\<lambda>kd. \<lparr>ev_type = added, ev_device = snd kd, ev_timestamp = now\<rparr>)
              (filter (\<lambda>kd. \<not> map_has oldDevices (fst kd)) newDevices))"
    | (r) "e \<in> set (map (\<lambda>kd. \<lparr>ev_type = removed, ev_device = snd kd, ev_timestamp = now\<rparr>)
              (filter (\<lambda>kd. \<not> map_has newDevices (fst kd)) oldDevices))"
    | (d) "e \<in> set (if map_option dev_id (find isDefault (map snd oldDevices)) \<noteq>
                      map_option dev_id (find isDefault (map snd newDevices)) then
               (case find isDefault (map snd newDevices) of
                  Some d \<Rightarrow> [\<lparr>ev_type = defaultChanged, ev_device = d, ev_timestamp = now\<rparr>]
                | None \<Rightarrow> [])
             else [])"
    | (s) "e \<in> set (concat (map (\<lambda>kd.
              (case map_of oldDevices (fst kd) of
                 Some oldDevice \<Rightarrow>
                   (if isEnabled oldDevice \<noteq> isEnabled (snd kd)
                    then [\<lparr>ev_type = stateChanged, ev_device = snd kd, ev_timestamp = now\<rparr>]
                    else [])
               | None \<Rightarrow> [])) newDevices))"
    unfolding detectDeviceChanges_def Let_def set_append by blast
  then show ?thesis
  proof cases
    case a
    with assms(2) show ?thesis by auto
  next
    case r
    with assms(2) show ?thesis by auto
  next
    case d
    then show ?thesis by (rule default_part)
  next
    case s
    from state_events_type [OF this] assms(2) show ?thesis by simp
  qed
qed

subsection \<open>Claims about the device change detector\<close>

text \<open>
  C4. Let A, B and C be devices with three different ids, A and C marked default and B not.
  For the old device map holding A and B and the new one holding B and C (in either insertion
  order), one call of \<open>detectDeviceChanges\<close> emits exactly three events: added(C),
  removed(A) and defaultChanged(C), in this order; as a multiset these are removed(A),
  added(C), defaultChanged(C), each once.
\<close>

theorem device_diff_three_events:
  assumes "dev_id A \<noteq> dev_id B" and "dev_id B \<noteq> dev_id C" and "dev_id A \<noteq> dev_id C"
    and "isDefault A" and "\<not> isDefault B" and "isDefault C"
    and "oldDevices = [(dev_id A, A), (dev_id B, B)] \<or> oldDevices = [(dev_id B, B), (dev_id A, A)]"
    and "newDevices = [(dev_id B, B), (dev_id C, C)] \<or> newDevices = [(dev_id C, C), (dev_id B, B)]"
  shows "detectDeviceChanges oldDevices newDevices now =
           [\<lparr>ev_type = added, ev_device = C, ev_timestamp = now\<rparr>,
            \<lparr>ev_type = removed, ev_device = A, ev_timestamp = now\<rparr>,
            \<lparr>ev_type = defaultChanged, ev_device = C, ev_timestamp = now\<rparr>] \<and>
         mset (detectDeviceChanges oldDevices newDevices now) =
           {#\<lparr>ev_type = removed, ev_device = A, ev_timestamp = now\<rparr>,
             \<lparr>ev_type = added, ev_device = C, ev_timestamp = now\<rparr>,
             \<lparr>ev_type = defaultChanged, ev_device = C, ev_timestamp = now\<rparr>#}"
proof -
  have "detectDeviceChanges oldDevices newDevices now =
           [\<lparr>ev_type = added, ev_device = C, ev_timestamp = now\<rparr>,
            \<lparr>ev_type = removed, ev_device = A, ev_timestamp = now\<rparr>,
            \<lparr>ev_type = defaultChanged, ev_device = C, ev_timestamp = now\<rparr>]"
    using assms by (auto simp: detectDeviceChanges_def map_has_def Let_def)
  then show ?thesis by simp
qed

theorem device_diff_three_events_witness:
  "dev_id devA \<noteq> dev_id devB \<and> dev_id devB \<noteq> dev_id devC \<and> dev_id devA \<noteq> dev_id devC \<and>
   isDefault devA \<and> \<not> isDefault devB \<and> isDefault devC \<and>
   detectDeviceChanges [(''A'', devA), (''B'', devB)] [(''B'', devB), (''C'', devC)] 1700000000000 =
     [\<lparr>ev_type = added, ev_device = devC, ev_timestamp = 1700000000000\<rparr>,
      \<lparr>ev_type = removed, ev_device = devA, ev_timestamp = 1700000000000\<rparr>,
      \<lparr>ev_type = defaultChanged, ev_device = devC, ev_timestamp = 1700000000000\<rparr>]"
proof -
  have ids: "dev_id devA \<noteq> dev_id devB" "dev_id devB \<noteq> dev_id devC" "dev_id devA \<noteq> dev_id devC"
    by (simp_all add: devA_def devB_def devC_def)
  have flags: "isDefault devA" "\<not> isDefault devB" "isDefault devC"
    by (simp_all add: devA_def devB_def devC_def)
  have old: "[(''A'', devA), (''B'', devB)] = [(dev_id devA, devA), (dev_id devB, devB)] \<or>
      [(''A'', devA), (''B'', devB)] = [(dev_id devB, devB), (dev_id devA, devA)]"
    by (simp add: devA_def devB_def)
  have new: "[(''B'', devB), (''C'', devC)] = [(dev_id devB, devB), (dev_id devC, devC)] \<or>
      [(''B'', devB), (''C'', devC)] = [(dev_id devC, devC), (dev_id devB, devB)]"
    by (simp add: devB_def devC_def)
  from device_diff_three_events [OF ids flags old new, of 1700000000000] ids flags
  show ?thesis by blast
qed

text \<open>
  C10. Every defaultChanged event of a diff cycle carries a device of the new map that is
  marked default, so such an event is emitted only when the new map has a default device.
  When the old map has a device marked default and the new map has none, the default differs
  between old and new (the source compares an id with \<^verbatim>\<open>undefined\<close>), and yet no
  defaultChanged event is emitted in that cycle.
\<close>

theorem default_changed_needs_new_default:
  "(\<forall>e \<in> set (detectDeviceChanges oldDevices newDevices now).
      ev_type e = defaultChanged \<longrightarrow>
        (\<exists>d \<in> set (map snd newDevices). isDefault d \<and> ev_device e = d)) \<and>
   ((\<exists>d \<in> set (map snd oldDevices). isDefault d) \<and>
    (\<forall>d \<in> set (map snd newDevices). \<not> isDefault d) \<longrightarrow>
      map_option dev_id (find isDefault (map snd oldDevices)) \<noteq>
        map_option dev_id (find isDefault (map snd newDevices)) \<and>
      (\<forall>e \<in> set (detectDeviceChanges oldDevices newDevices now).
         ev_type e \<noteq> defaultChanged))"
proof -
  have a: "\<exists>d \<in> set (map snd newDevices). isDefault d \<and> ev_device e = d"
    if "e \<in> set (detectDeviceChanges oldDevices newDevices now)" "ev_type e = defaultChanged" for e
  proof -
    from default_event_only [OF that] obtain d
      where d: "find isDefault (map snd newDevices) = Some d" "ev_device e = d" by blast
    from d(1) have "d \<in> set (map snd newDevices)" "isDefault d"
      by (auto simp: find_Some_iff)
    with d(2) show ?thesis by blast
  qed
  have b: "map_option dev_id (find isDefault (map snd oldDevices)) \<noteq>
        map_option dev_id (find isDefault (map snd newDevices))"
    if "\<exists>d \<in> set (map snd oldDevices). isDefault d"
       "\<forall>d \<in> set (map snd newDevices). \<not> isDefault d"
  proof -
    from that(2) have "find isDefault (map snd newDevices) = None"
      by (simp add: find_None_iff)
    moreover from that(1) have "find isDefault (map snd oldDevices) \<noteq> None"
      by (simp add: find_None_iff)
    ultimately show ?thesis by auto
  qed
  from a b show ?thesis by blast
qed

theorem default_changed_needs_new_default_witness:
  "isDefault devA \<and> \<not> isDefault devB \<and>
   detectDeviceChanges [(''A'', devA), (''B'', devB)] [(''B'', devB)] 1700000000000 =
     [\<lparr>ev_type = removed, ev_device = devA, ev_timestamp = 1700000000000\<rparr>] \<and>
   defaultChanged \<notin>
     set (map ev_type
       (detectDeviceChanges [(''A'', devA), (''B'', devB)] [(''B'', devB)] 1700000000000))"
proof -
  have flags: "isDefault devA" "\<not> isDefault devB"
    by (simp_all add: devA_def devB_def)
  have h1: "\<exists>d \<in> set (map snd [(''A'', devA), (''B'', devB)]). isDefault d"
    using flags by simp
  have h2: "\<forall>d \<in> set (map snd [(''B'', devB)]). \<not> isDefault d"
    using flags by simp
  have ev: "detectDeviceChanges [(''A'', devA), (''B'', devB)] [(''B'', devB)] 1700000000000 =
     [\<lparr>ev_type = removed, ev_device = devA, ev_timestamp = 1700000000000\<rparr>]"
    by (simp add: detectDeviceChanges_def map_has_def Let_def devA_def devB_def)
  from default_changed_needs_new_default
    [of "[(''A'', devA), (''B'', devB)]" "[(''B'', devB)]" 1700000000000] h1 h2
  have "\<forall>e \<in> set (detectDeviceChanges [(''A'', devA), (''B'', devB)] [(''B'', devB)]
      1700000000000). ev_type e \<noteq> defaultChanged"
    by blast
  then have "defaultChanged \<notin>
     set (map ev_type
       (detectDeviceChanges [(''A'', devA), (''B'', devB)] [(''B'', devB)] 1700000000000))"
    by auto
  with flags ev show ?thesis by blast
qed

section \<open>The segment window\<close>

lemma fold_duration: "fold (\<lambda>c sum. sum + duration c) cs a = a + sum_list (map duration cs)"
  by (induction cs arbitrary: a) simp_all

lemma totalDuration_Nil: "totalDuration [] = 0"
  by (simp add: totalDuration_def)

lemma totalDuration_Cons: "totalDuration (c # cs) = duration c + totalDuration cs"
  by (simp add: totalDuration_def fold_duration)

lemma evict_spec:
  "\<exists>k \<le> length cs.
     evict (totalDuration cs - maxBufferDuration) cs = drop k cs \<and>
     totalDuration (drop k cs) \<le> maxBufferDuration \<and>
     (\<forall>j < k. totalDuration (drop j cs) > maxBufferDuration)"
proof (induction cs)
  case Nil
  show ?case by (simp add: totalDuration_Nil maxBufferDuration_def)
next
  case (Cons c cs)
  show ?case
  proof (cases "totalDuration (c # cs) - maxBufferDuration > 0")
    case True
    from Cons.IH obtain k where k: "k \<le> length cs"
      "evict (totalDuration cs - maxBufferDuration) cs = drop k cs"
      "totalDuration (drop k cs) \<le> maxBufferDuration"
      "\<forall>j < k. totalDuration (drop j cs) > maxBufferDuration" by blast
    have ev: "evict (totalDuration (c # cs) - maxBufferDuration) (c # cs) = drop (Suc k) (c # cs)"
      using True k(2) by (simp add: totalDuration_Cons algebra_simps)
    have "totalDuration (drop j (c # cs)) > maxBufferDuration" if "j < Suc k" for j
    proof (cases j)
      case 0
      with True show ?thesis by simp
    next
      case (Suc j')
      with that k(4) show ?thesis by simp
    qed
    with ev k(1,3) show ?thesis
      by (intro exI [of _ "Suc k"]) simp
  next
    case False
    then show ?thesis by (intro exI [of _ 0]) simp
  qed
qed

lemma addAudioChunk_spec:
  "addAudioChunk audioBuffer chunk =
     drop (evicted_count audioBuffer chunk) (audioBuffer @ [chunk]) \<and>
   evicted_count audioBuffer chunk \<le> length (audioBuffer @ [chunk]) \<and>
   totalDuration (addAudioChunk audioBuffer chunk) \<le> maxBufferDuration \<and>
   (\<forall>j < evicted_count audioBuffer chunk.
      totalDuration (drop j (audioBuffer @ [chunk])) > maxBufferDuration) \<and>
   (totalDuration (audioBuffer @ [chunk]) \<le> maxBufferDuration \<longrightarrow>
      addAudioChunk audioBuffer chunk = audioBuffer @ [chunk])"
proof -
  let ?p = "audioBuffer @ [chunk]"
  obtain k where k: "k \<le> length ?p"
      "addAudioChunk audioBuffer chunk = drop k ?p"
      "totalDuration (drop k ?p) \<le> maxBufferDuration"
      "\<forall>j < k. totalDuration (drop j ?p) > maxBufferDuration"
  proof (cases "totalDuration ?p > maxBufferDuration")
    case True
    from evict_spec [of ?p] obtain k where "k \<le> length ?p"
      "evict (totalDuration ?p - maxBufferDuration) ?p = drop k ?p"
      "totalDuration (drop k ?p) \<le> maxBufferDuration"
      "\<forall>j < k. totalDuration (drop j ?p) > maxBufferDuration" by blast
    with True that [of k] show ?thesis by (simp add: addAudioChunk_def Let_def)
  next
    case False
    with that [of 0] show ?thesis by (simp add: addAudioChunk_def Let_def)
  qed
  from k(1,2) have cnt: "evicted_count audioBuffer chunk = k"
    by (simp add: evicted_count_def)
  have keep: "totalDuration ?p \<le> maxBufferDuration \<longrightarrow> addAudioChunk audioBuffer chunk = ?p"
    by (simp add: addAudioChunk_def Let_def)
  from k(3) have "totalDuration (addAudioChunk audioBuffer chunk) \<le> maxBufferDuration"
    by (simp only: k(2))
  with k(1,2,4) keep show ?thesis unfolding cnt by (intro conjI)
qed

subsection \<open>Claim about the segment window\<close>

text \<open>
  C8. A push appends the chunk and then removes some number \<open>k\<close> of chunks from the front,
  oldest first, and nothing else: the result is the pushed sequence without its first \<open>k\<close>
  chunks. Afterwards the total duration is at most the cap (30000 ms in the source). The
  eviction stops as early as it can: for every \<open>j < k\<close>, the sequence without its first
  \<open>j\<close> chunks is still over the cap. In particular a push whose total stays within the cap
  removes nothing. Every other operation on the window either leaves it as it is or empties it.
\<close>

theorem segment_window_eviction:
  "addAudioChunk audioBuffer chunk =
     drop (evicted_count audioBuffer chunk) (audioBuffer @ [chunk]) \<and>
   evicted_count audioBuffer chunk \<le> length (audioBuffer @ [chunk]) \<and>
   totalDuration (addAudioChunk audioBuffer chunk) \<le> maxBufferDuration \<and>
   (\<forall>j < evicted_count audioBuffer chunk.
      totalDuration (drop j (audioBuffer @ [chunk])) > maxBufferDuration) \<and>
   (totalDuration (audioBuffer @ [chunk]) \<le> maxBufferDuration \<longrightarrow>
      addAudioChunk audioBuffer chunk = audioBuffer @ [chunk]) \<and>
   ((\<forall>c. w \<noteq> AddAudioChunk c) \<longrightarrow>
      window_step audioBuffer w = audioBuffer \<or> window_step audioBuffer w = [])"
proof -
  have other: "window_step audioBuffer w = audioBuffer \<or> window_step audioBuffer w = []"
    if "\<forall>c. w \<noteq> AddAudioChunk c"
    using that by (cases w) simp_all
  from addAudioChunk_spec [of audioBuffer chunk] other show ?thesis by blast
qed

theorem segment_window_eviction_witness:
  "addAudioChunk [chunk_of 20000, chunk_of 9000] (chunk_of 5000) =
     [chunk_of 9000, chunk_of 5000] \<and>
   evicted_count [chunk_of 20000, chunk_of 9000] (chunk_of 5000) = 1 \<and>
   totalDuration ([chunk_of 20000, chunk_of 9000] @ [chunk_of 5000]) = 34000 \<and>
   totalDuration (addAudioChunk [chunk_of 20000, chunk_of 9000] (chunk_of 5000)) = 14000 \<and>
   totalDuration ([chunk_of 20000, chunk_of 5000] @ [chunk_of 4000]) \<le> maxBufferDuration \<and>
   addAudioChunk [chunk_of 20000, chunk_of 5000] (chunk_of 4000) =
     [chunk_of 20000, chunk_of 5000] @ [chunk_of 4000] \<and>
   window_step [chunk_of 20000, chunk_of 5000] (Transcribe True False) = [] \<and>
   window_step [chunk_of 20000, chunk_of 5000] (Transcribe True True) =
     [chunk_of 20000, chunk_of 5000]"
proof -
  have d: "duration (chunk_of n) = n" for n by (simp add: chunk_of_def)
  have t1: "totalDuration ([chunk_of 20000, chunk_of 9000] @ [chunk_of 5000]) = 34000"
    by (simp add: totalDuration_def d)
  have t2: "totalDuration ([chunk_of 20000, chunk_of 5000] @ [chunk_of 4000]) \<le> maxBufferDuration"
    by (simp add: totalDuration_def d maxBufferDuration_def)
  have a1: "addAudioChunk [chunk_of 20000, chunk_of 9000] (chunk_of 5000) =
     [chunk_of 9000, chunk_of 5000]"
    by (simp add: addAudioChunk_def totalDuration_def d maxBufferDuration_def Let_def)
  have k: "evicted_count [chunk_of 20000, chunk_of 9000] (chunk_of 5000) = 1"
    by (simp add: evicted_count_def a1)
  have t3: "totalDuration (addAudioChunk [chunk_of 20000, chunk_of 9000] (chunk_of 5000)) = 14000"
    by (simp add: a1 totalDuration_def d)
  from segment_window_eviction [of "[chunk_of 20000, chunk_of 5000]" "chunk_of 4000"] t2
  have "addAudioChunk [chunk_of 20000, chunk_of 5000] (chunk_of 4000) =
     [chunk_of 20000, chunk_of 5000] @ [chunk_of 4000]"
    by blast
  with t1 t2 a1 k t3 show ?thesis by simp
qed

section \<open>The capture manager\<close>

lemma onAudioData_overflow:
  assumes "isCapturing m" and "ringBuffer m = Some b" and "currentConfig m = Some c"
    and "int (length samples) > getAvailableSpace b"
  shows "onAudioData m (Some samples) = (m, [BufferOverflow])"
  using assms by (simp add: onAudioData_def write_overflow)

lemma startCapture_driver_fails:
  assumes "\<not> isCapturing m" and "nativeModule m"
  shows "startCapture m config False =
    (Some (CaptureError ''Failed to start native audio capture''),
     m\<lparr>ringBuffer := Some (RingBuffer_new (sampleRate config * channels config * 10))\<rparr>, [])"
  using assms by (simp add: startCapture_def Let_def)

subsection \<open>Claims about the capture manager\<close>

text \<open>
  C5. The source allocates the ring buffer and stores it in the manager before it calls the
  driver, and the failure path does not take it back. Started on an idle manager (driver
  handle loaded, no ring buffer) with the driver refusing to start, \<open>startCapture\<close> throws
  the capture error and emits nothing; \<open>isCapturing\<close>, \<open>currentConfig\<close> and
  \<open>audioChunks\<close> are as before, but \<open>ringBuffer\<close> now holds a fresh buffer of
  441000 samples, so the manager is not the one the call started from. (\<open>stopCapture\<close>,
  the other way into the idle state, resets \<open>ringBuffer\<close> to null.)
\<close>

theorem failed_start_keeps_ring_buffer:
  "startCapture idle_manager example_config False =
     (Some (CaptureError ''Failed to start native audio capture''),
      idle_manager\<lparr>ringBuffer := Some (RingBuffer_new 441000)\<rparr>, []) \<and>
   ringBuffer idle_manager = None \<and>
   ringBuffer (fst (snd (startCapture idle_manager example_config False))) =
     Some (RingBuffer_new 441000) \<and>
   fst (snd (startCapture idle_manager example_config False)) \<noteq> idle_manager \<and>
   isCapturing (fst (snd (startCapture idle_manager example_config False))) =
     isCapturing idle_manager \<and>
   currentConfig (fst (snd (startCapture idle_manager example_config False))) =
     currentConfig idle_manager \<and>
   audioChunks (fst (snd (startCapture idle_manager example_config False))) =
     audioChunks idle_manager"
proof -
  have idle: "\<not> isCapturing idle_manager" "nativeModule idle_manager"
    "ringBuffer idle_manager = None"
    by (simp_all add: idle_manager_def AudioCaptureManager_new_def)
  have size: "sampleRate example_config * channels example_config * 10 = 441000"
    by (simp add: example_config_def)
  have "startCapture idle_manager example_config False =
     (Some (CaptureError ''Failed to start native audio capture''),
      idle_manager\<lparr>ringBuffer := Some (RingBuffer_new 441000)\<rparr>, [])"
    using startCapture_driver_fails [OF idle(1,2), of example_config] by (simp only: size)
  moreover have "idle_manager\<lparr>ringBuffer := Some (RingBuffer_new 441000)\<rparr> \<noteq> idle_manager"
  proof
    assume "idle_manager\<lparr>ringBuffer := Some (RingBuffer_new 441000)\<rparr> = idle_manager"
    then have "ringBuffer (idle_manager\<lparr>ringBuffer := Some (RingBuffer_new 441000)\<rparr>) =
        ringBuffer idle_manager" by (simp only:)
    with idle(3) show False by simp
  qed
  ultimately show ?thesis using idle(3) by simp
qed

text \<open>
  C6, as stated, fails: a write is all or nothing, so a delivery that does not fit is dropped
  whole and the buffer keeps none of it. A capturing manager with an empty buffer of size 4
  (room for 3 samples) receives 5 samples: one bufferOverflow event is emitted, and afterwards
  the buffer is still empty, with all 3 places free.
\<close>

theorem overflow_retains_nothing_counterexample:
  "isCapturing capturing_manager \<and>
   ringBuffer capturing_manager = Some (RingBuffer_new 4) \<and>
   int (length [1, 2, 3, 4, 5 :: sample]) > getAvailableSpace (RingBuffer_new 4) \<and>
   snd (onAudioData capturing_manager (Some [1, 2, 3, 4, 5])) = [BufferOverflow] \<and>
   rb_contents (the (ringBuffer (fst (onAudioData capturing_manager (Some [1, 2, 3, 4, 5]))))) = [] \<and>
   getAvailableSpace (the (ringBuffer (fst (onAudioData capturing_manager (Some [1, 2, 3, 4, 5]))))) = 3"
proof -
  have sp: "getAvailableSpace (RingBuffer_new 4) = 3" by (simp add: space_new)
  have "onAudioData capturing_manager (Some [1, 2, 3, 4, 5]) =
      (capturing_manager, [BufferOverflow])"
    by (rule onAudioData_overflow [where b = "RingBuffer_new 4" and c = example_config])
      (simp_all add: capturing_manager_def sp)
  then show ?thesis by (simp add: capturing_manager_def sp rb_contents_new)
qed

text \<open>
  C6, amended. While capturing, a delivery of more samples than the buffer's
  \<open>getAvailableSpace\<close> emits exactly one bufferOverflow event and changes nothing else: the
  manager returned is the one the callback started from. So capture continues
  (\<open>isCapturing\<close> stays true), the delivered block is discarded whole, and the buffer keeps
  exactly the samples stored before the callback, unchanged.
\<close>

theorem overflow_drops_block:
  assumes "isCapturing m" and "ringBuffer m = Some b" and "currentConfig m = Some c"
    and "rb_wf b" and "int (length samples) > getAvailableSpace b"
  shows "onAudioData m (Some samples) = (m, [BufferOverflow])"
  using assms(1,2,3,5) by (rule onAudioData_overflow)

theorem overflow_drops_block_witness:
  "onAudioData
     (capturing_manager\<lparr>ringBuffer := Some (fst (RingBuffer_write (RingBuffer_new 4) [1, 2]))\<rparr>)
     (Some [3, 4, 5]) =
   (capturing_manager\<lparr>ringBuffer := Some (fst (RingBuffer_write (RingBuffer_new 4) [1, 2]))\<rparr>,
    [BufferOverflow]) \<and>
   rb_wf (fst (RingBuffer_write (RingBuffer_new 4) [1, 2])) \<and>
   int (length [3, 4, 5 :: sample]) > getAvailableSpace (fst (RingBuffer_write (RingBuffer_new 4) [1, 2])) \<and>
   rb_contents (fst (RingBuffer_write (RingBuffer_new 4) [1, 2])) = [1, 2]"
proof -
  let ?b = "fst (RingBuffer_write (RingBuffer_new 4) [1, 2])"
  let ?m = "capturing_manager\<lparr>ringBuffer := Some ?b\<rparr>"
  have h1: "isCapturing ?m" by (simp add: capturing_manager_def)
  have h2: "ringBuffer ?m = Some ?b" by simp
  have h3: "currentConfig ?m = Some example_config" by (simp add: capturing_manager_def)
  have h4: "rb_wf ?b" by code_simp
  have h5: "int (length [3, 4, 5 :: sample]) > getAvailableSpace ?b" by code_simp
  have "rb_contents ?b = [1, 2]" by code_simp
  with overflow_drops_block [OF h1 h2 h3 h4 h5] h4 h5 show ?thesis by simp
qed

end
